theory Spec2Isabelle
  imports Main "HOL-Library.Sublist"
begin

section \<open>Paths and the file system\<close>

text \<open>
  A path is the list of its components, outermost first: \<open>./Data/top.zip\<close> is
  \<open>[''Data'', ''top.zip'']\<close>.  The file system is an association list from paths to
  what is stored there; the first entry of a path is the one that counts.  There are no
  symbolic links.
\<close>

type_synonym path = "string list"

datatype kind = File string | Dir

type_synonym fs = "(path \<times> kind) list"

text \<open>\<open>os.path.join(d, n)\<close> for a relative name \<open>n\<close> without a separator: joining the
  empty name only adds a trailing separator, which names the same directory.\<close>

definition join :: "path \<Rightarrow> string \<Rightarrow> path" where
  "join d n = (if n = [] then d else d @ [n])"

text \<open>\<open>os.path.basename\<close>: the last component, empty when there is none.\<close>

definition basename :: "path \<Rightarrow> string" where
  "basename p = (if p = [] then [] else last p)"

text \<open>
  \<open>os.path.splitext(name)[0]\<close> on a single component: the extension starts at the last
  dot, unless only dots stand in front of it (\<open>.bashrc\<close> has no extension).
\<close>

fun rfind_dot :: "string \<Rightarrow> nat option" where
  "rfind_dot [] = None"
| "rfind_dot (c # cs) =
     (case rfind_dot cs of
        Some i \<Rightarrow> Some (Suc i)
      | None \<Rightarrow> if c = CHR ''.'' then Some 0 else None)"

definition splitext_root :: "string \<Rightarrow> string" where
  "splitext_root name =
     (case rfind_dot name of
        None \<Rightarrow> name
      | Some i \<Rightarrow> if list_ex (\<lambda>c. c \<noteq> CHR ''.'') (take i name) then take i name else name)"

definition path_exists :: "fs \<Rightarrow> path \<Rightarrow> bool" where
  "path_exists t p = (map_of t p \<noteq> None)"

definition path_isdir :: "fs \<Rightarrow> path \<Rightarrow> bool" where
  "path_isdir t p = (map_of t p = Some Dir)"

text \<open>The entries directly inside \<open>d\<close>, in the order of the listing.  A listing never
  holds an empty name.\<close>

definition children :: "fs \<Rightarrow> path \<Rightarrow> path list" where
  "children t d = remdups (filter (\<lambda>q. q \<noteq> [] \<and> butlast q = d \<and> last q \<noteq> []) (map fst t))"

datatype exn = PatoolError string | OSError | OtherError string

text \<open>\<open>os.listdir\<close> raises \<open>OSError\<close> on anything that is not a directory.\<close>

definition listdir :: "fs \<Rightarrow> path \<Rightarrow> exn + string list" where
  "listdir t d = (if path_isdir t d then Inr (map last (children t d)) else Inl OSError)"

text \<open>The scan \<open>os.walk\<close> makes of one directory: the names of its sub-directories and
  of its other entries; \<open>None\<close> when the scan fails.\<close>

definition scandir :: "fs \<Rightarrow> path \<Rightarrow> (string list \<times> string list) option" where
  "scandir t root =
     (if path_isdir t root
      then Some (map last (filter (path_isdir t) (children t root)),
                 map last (filter (\<lambda>q. \<not> path_isdir t q) (children t root)))
      else None)"

section \<open>The world the extractor runs in\<close>

record options =
  verbosity :: int
  program :: "string option"
  interactive :: bool
  password :: "string option"

datatype call =
    IsArchive path
  | TestArchive path options
  | ExtractArchive path path options
  | IsAutoGenerated path
  | PathExists path
  | Rmtree path
  | Remove path

datatype message =
    NotValidArchive path
  | TestFailed path string
  | ExtractFailed path string
  | RemovedAutoGenerated path
  | RemovedCleanup path

datatype event = Called call | LogError message | LogInfo message

text \<open>
  The state: the file system, the paths the operating system refuses to delete, the two
  fields of the \<open>ArchExtractor\<close> instance, and the record of what happened (every call
  to a collaborator and every log record, oldest first).
\<close>

record world =
  files :: fs
  undeletable :: "path list"
  self_src :: path
  self_dst :: path
  trace :: "event list"

text \<open>
  The collaborators: the three operations of the archive backend (\<open>patoolib\<close>) and the
  predicate \<open>is_auto_generated\<close> of the package's \<open>utils\<close> module.  A backend call ends
  normally (\<open>None\<close>) or raises.  The last field is the system's part in
  \<open>shutil.rmtree\<close>: the entries a call on a directory reaches before one it cannot
  delete, which depends on the order in which the system lists directories.
\<close>

record env =
  patool_is_archive :: "fs \<Rightarrow> path \<Rightarrow> bool"
  patool_test_archive :: "fs \<Rightarrow> path \<Rightarrow> options \<Rightarrow> exn option"
  patool_extract_archive :: "fs \<Rightarrow> path \<Rightarrow> path \<Rightarrow> options \<Rightarrow> fs \<times> exn option"
  is_auto_generated :: "path \<Rightarrow> bool"
  rmtree_reached :: "fs \<Rightarrow> path \<Rightarrow> path list"

definition emit :: "event \<Rightarrow> world \<Rightarrow> world" where
  "emit e w = w\<lparr>trace := trace w @ [e]\<rparr>"

text \<open>\<open>os.remove\<close>: deletes a file; raises \<open>OSError\<close> on a directory, a missing path
  or a path the system protects.\<close>

definition os_remove :: "path \<Rightarrow> world \<Rightarrow> exn + world" where
  "os_remove p w =
     (if path_exists (files w) p \<and> \<not> path_isdir (files w) p \<and> p \<notin> set (undeletable w)
      then Inr (w\<lparr>files := filter (\<lambda>(q, k). q \<noteq> p) (files w)\<rparr>)
      else Inl OSError)"

text \<open>
  \<open>shutil.rmtree\<close>: deletes a directory with everything below it, and raises
  \<open>OSError\<close>, deleting nothing, on anything but a directory.  When something at or
  below the directory is protected the call raises \<open>OSError\<close> at the first entry it
  cannot delete; what it had reached before (\<open>reached\<close>) is gone by then: each reached
  entry strictly below the directory, with everything below it, unless something
  protected lies at or below that entry.  The file system holds files and directories
  only; symbolic links are not part of it.
\<close>

definition rmtree_partial :: "path list \<Rightarrow> path \<Rightarrow> world \<Rightarrow> world" where
  "rmtree_partial reached p w =
     w\<lparr>files := filter (\<lambda>(q, k). \<not> list_ex (\<lambda>c. strict_prefix p c \<and> prefix c q \<and>
                                            \<not> list_ex (prefix c) (undeletable w)) reached)
                        (files w)\<rparr>"

definition shutil_rmtree :: "path list \<Rightarrow> path \<Rightarrow> world \<Rightarrow> world \<times> exn option" where
  "shutil_rmtree reached p w =
     (if \<not> path_isdir (files w) p then (w, Some OSError)
      else if list_ex (prefix p) (undeletable w) then (rmtree_partial reached p w, Some OSError)
      else (w\<lparr>files := filter (\<lambda>(q, k). \<not> prefix p q) (files w)\<rparr>, None))"

section \<open>The finalizer's walk\<close>

text \<open>
  The body of the two inner loops of the walk, for a sub-directory (\<open>isd\<close>) or another
  entry at path \<open>p\<close>: the entry is deleted when the predicate holds and the path still
  exists.  The deletion can raise \<open>OSError\<close>; the state is then what the failed call
  left.
\<close>

definition remove_if_auto_generated ::
  "env \<Rightarrow> bool \<Rightarrow> path \<Rightarrow> world \<Rightarrow> world \<times> exn option" where
  "remove_if_auto_generated E isd p w =
     (let w1 = emit (Called (IsAutoGenerated p)) w
      in if \<not> is_auto_generated E p then (w1, None)
         else
           let w2 = emit (Called (PathExists p)) w1
           in if \<not> path_exists (files w2) p then (w2, None)
              else
                let w3 = emit (Called (if isd then Rmtree p else Remove p)) w2
                in if isd
                   then (case shutil_rmtree (rmtree_reached E (files w3) p) p w3 of
                           (w4, Some e) \<Rightarrow> (w4, Some e)
                         | (w4, None) \<Rightarrow> (emit (LogInfo (RemovedAutoGenerated p)) w4, None))
                   else (case os_remove p w3 of
                           Inl e \<Rightarrow> (w3, Some e)
                         | Inr w4 \<Rightarrow> (emit (LogInfo (RemovedAutoGenerated p)) w4, None)))"

text \<open>\<open>for name in names: ...\<close> over the names the walk listed in \<open>root\<close>; an
  exception leaves the loop.\<close>

fun remove_auto_generated ::
  "env \<Rightarrow> bool \<Rightarrow> path \<Rightarrow> string list \<Rightarrow> world \<Rightarrow> world \<times> exn option" where
  "remove_auto_generated E isd root [] w = (w, None)"
| "remove_auto_generated E isd root (n # ns) w =
     (case remove_if_auto_generated E isd (join root n) w of
        (w1, Some e) \<Rightarrow> (w1, Some e)
      | (w1, None) \<Rightarrow> remove_auto_generated E isd root ns w1)"

definition walk_body ::
  "env \<Rightarrow> path \<Rightarrow> string list \<Rightarrow> string list \<Rightarrow> world \<Rightarrow> world \<times> exn option" where
  "walk_body E root dirs nondirs w =
     (case remove_auto_generated E True root dirs w of
        (w1, Some e) \<Rightarrow> (w1, Some e)
      | (w1, None) \<Rightarrow> remove_auto_generated E False root nondirs w1)"

text \<open>
  \<open>for root, dirs, files in os.walk(dst): ...\<close>, top-down.  \<open>os.walk\<close> keeps a stack of
  directories still to visit.  A directory whose scan fails (it is gone, or it is not a
  directory) is skipped without an error; otherwise the two inner loops run on what the
  scan listed, and then every listed sub-directory is pushed, first listed on top.
\<close>

function walk_loop :: "env \<Rightarrow> path list \<Rightarrow> world \<Rightarrow> world \<times> exn option" where
  "walk_loop E [] w = (w, None)"
| "walk_loop E (root # stack) w =
     (case scandir (files w) root of
        None \<Rightarrow> walk_loop E stack w
      | Some (dirs, nondirs) \<Rightarrow>
          (case walk_body E root dirs nondirs w of
             (w1, Some e) \<Rightarrow> (w1, Some e)
           | (w1, None) \<Rightarrow> walk_loop E (map (join root) dirs @ stack) w1))"
  by pat_completeness auto

text \<open>The measure of the walk: how many entries of the file system lie at or below a
  path.\<close>

definition cnt :: "fs \<Rightarrow> path \<Rightarrow> nat" where
  "cnt t p = length (filter (prefix p) (map fst t))"

section \<open>The extractor\<close>

text \<open>\<open>if arg is None: arg = self.field\<close>.\<close>

definition or_field :: "path option \<Rightarrow> path \<Rightarrow> path" where
  "or_field arg field = (case arg of None \<Rightarrow> field | Some p \<Rightarrow> p)"

text \<open>
  \<open>ArchExtractor.test_archive\<close>.  The result is the new state and either the boolean
  returned or the exception that left the method: only \<open>PatoolError\<close> is caught.
\<close>

definition test_archive ::
  "env \<Rightarrow> path option \<Rightarrow> options \<Rightarrow> world \<Rightarrow> world \<times> (exn + bool)" where
  "test_archive E src_arg opts w =
     (let src = or_field src_arg (self_src w);
          w1 = emit (Called (IsArchive src)) w
      in if \<not> patool_is_archive E (files w1) src
         then (emit (LogError (NotValidArchive src)) w1, Inr False)
         else
           let w2 = emit (Called (TestArchive src opts)) w1
           in case patool_test_archive E (files w2) src opts of
                None \<Rightarrow> (w2, Inr True)
              | Some (PatoolError m) \<Rightarrow> (emit (LogError (TestFailed src m)) w2, Inr False)
              | Some e \<Rightarrow> (w2, Inl e))"

text \<open>The body of the inner \<open>try\<close> of the \<open>finally\<close> block: the walk over \<open>dst\<close>, then
  the deletion of the source.\<close>

definition cleanup_and_delete ::
  "env \<Rightarrow> bool \<Rightarrow> path \<Rightarrow> path \<Rightarrow> world \<Rightarrow> world \<times> exn option" where
  "cleanup_and_delete E cleanup src dst w =
     (case walk_loop E [dst] w of
        (w1, Some e) \<Rightarrow> (w1, Some e)
      | (w1, None) \<Rightarrow>
          if \<not> cleanup then (w1, None)
          else
            let w2 = emit (Called (PathExists src)) w1
            in if \<not> path_exists (files w2) src then (w2, None)
               else
                 let w3 = emit (Called (Remove src)) w2
                 in (case os_remove src w3 of
                       Inl e \<Rightarrow> (w3, Some e)
                     | Inr w4 \<Rightarrow> (emit (LogInfo (RemovedCleanup src)) w4, None)))"

text \<open>The \<open>finally\<close> block: \<open>except OSError: pass\<close> around the body.\<close>

definition finalizer ::
  "env \<Rightarrow> bool \<Rightarrow> path \<Rightarrow> path \<Rightarrow> world \<Rightarrow> world \<times> exn option" where
  "finalizer E cleanup src dst w =
     (case cleanup_and_delete E cleanup src dst w of
        (w1, Some OSError) \<Rightarrow> (w1, None)
      | (w1, r) \<Rightarrow> (w1, r))"

text \<open>
  The \<open>try\<close> block of the method \<open>extract\<close> with its \<open>except PatoolError\<close>: the state after the
  backend call and the exception still pending when the \<open>finally\<close> block starts.
\<close>

definition try_extract_archive ::
  "env \<Rightarrow> path \<Rightarrow> path \<Rightarrow> options \<Rightarrow> world \<Rightarrow> world \<times> exn option" where
  "try_extract_archive E src dst opts w =
     (let w1 = emit (Called (ExtractArchive src dst opts)) w
      in case patool_extract_archive E (files w1) src dst opts of
           (t, None) \<Rightarrow> (w1\<lparr>files := t\<rparr>, None)
         | (t, Some (PatoolError m)) \<Rightarrow> (emit (LogError (ExtractFailed src m)) (w1\<lparr>files := t\<rparr>), None)
         | (t, Some e) \<Rightarrow> (w1\<lparr>files := t\<rparr>, Some e))"

text \<open>
  \<open>ArchExtractor.extract\<close> (the name \<open>extract\<close> is a keyword of Isabelle).  The
  result is the new state and the exception that left the method, if any: one raised in
  the \<open>finally\<close> block replaces the pending one.
\<close>

definition extract_single ::
  "env \<Rightarrow> path option \<Rightarrow> path option \<Rightarrow> options \<Rightarrow> bool \<Rightarrow> world \<Rightarrow> world \<times> exn option" where
  "extract_single E src_arg dst_arg opts cleanup w =
     (let src = or_field src_arg (self_src w);
          dst = or_field dst_arg (self_dst w)
      in case test_archive E (Some src) opts w of
           (w1, Inl e) \<Rightarrow> (w1, Some e)
         | (w1, Inr False) \<Rightarrow> (w1, None)
         | (w1, Inr True) \<Rightarrow>
             (case try_extract_archive E src dst opts w1 of
                (w2, pending) \<Rightarrow>
                  (case finalizer E cleanup src dst w2 of
                     (w3, Some e) \<Rightarrow> (w3, Some e)
                   | (w3, None) \<Rightarrow> (w3, pending))))"

text \<open>
  \<open>ArchExtractor.extractall\<close> and its loop over the listing of \<open>extract_dir\<close>.  The
  recursion of the source is not bounded, so the model counts it: the first argument is
  the number of nested calls still allowed, and the result is \<open>None\<close> when that number
  does not suffice.
\<close>

fun extractall ::
  "nat \<Rightarrow> env \<Rightarrow> path option \<Rightarrow> path option \<Rightarrow> options \<Rightarrow> bool \<Rightarrow> world
     \<Rightarrow> (world \<times> exn option) option"
and extract_nested ::
  "nat \<Rightarrow> env \<Rightarrow> path \<Rightarrow> string list \<Rightarrow> options \<Rightarrow> bool \<Rightarrow> world
     \<Rightarrow> (world \<times> exn option) option"
where
  "extractall 0 E src_arg dst_arg opts cleanup w = None"
| "extractall (Suc n) E src_arg dst_arg opts cleanup w =
     (let src = or_field src_arg (self_src w);
          dst = or_field dst_arg (self_dst w)
      in case extract_single E (Some src) (Some dst) opts cleanup w of
           (w1, Some e) \<Rightarrow> Some (w1, Some e)
         | (w1, None) \<Rightarrow>
             (let extract_dir = join dst (splitext_root (basename src));
                  w2 = emit (Called (PathExists extract_dir)) w1
              in if \<not> path_exists (files w2) extract_dir \<or> \<not> path_isdir (files w2) extract_dir
                 then Some (w2, None)
                 else case listdir (files w2) extract_dir of
                        Inl e \<Rightarrow> Some (w2, Some e)
                      | Inr names \<Rightarrow> extract_nested n E extract_dir names opts cleanup w2))"
| "extract_nested n E extract_dir [] opts cleanup w = Some (w, None)"
| "extract_nested n E extract_dir (file # rest) opts cleanup w =
     (let sub_file = join extract_dir file;
          w1 = emit (Called (IsArchive sub_file)) w
      in if patool_is_archive E (files w1) sub_file
         then (case extractall n E (Some sub_file) (Some extract_dir) opts cleanup w1 of
                 None \<Rightarrow> None
               | Some (w2, Some e) \<Rightarrow> Some (w2, Some e)
               | Some (w2, None) \<Rightarrow> extract_nested n E extract_dir rest opts cleanup w2)
         else extract_nested n E extract_dir rest opts cleanup w1)"

section \<open>An example run\<close>

text \<open>
  A backend that knows archives by the suffix \<open>.zip\<close>, probes them by reading the file,
  and unpacks by what the file holds: \<open>outer\<close> unpacks to a directory with a nested
  archive, a text file and a \<open>__MACOSX\<close> directory; \<open>inner\<close> to a directory with one
  file; \<open>pair\<close> to a directory with two nested archives; \<open>broken\<close> fails halfway.
  The file system holds \<open>D/o.zip\<close>.
\<close>

definition demo_opts :: options where
  "demo_opts = \<lparr>verbosity = - 1, program = None, interactive = False, password = None\<rparr>"

definition zip_name :: "string \<Rightarrow> bool" where
  "zip_name n = (drop (length n - 4) n = ''.zip'')"

definition demo_is_archive :: "fs \<Rightarrow> path \<Rightarrow> bool" where
  "demo_is_archive t p = (p \<noteq> [] \<and> zip_name (last p))"

definition demo_test_archive :: "fs \<Rightarrow> path \<Rightarrow> options \<Rightarrow> exn option" where
  "demo_test_archive t p opts =
     (case map_of t p of
        Some (File c) \<Rightarrow> if c = ''corrupt'' then Some (PatoolError ''corrupt'') else None
      | _ \<Rightarrow> Some (PatoolError ''missing''))"

definition demo_extract_archive :: "fs \<Rightarrow> path \<Rightarrow> path \<Rightarrow> options \<Rightarrow> fs \<times> exn option" where
  "demo_extract_archive t src dst opts =
     (let out = join dst (splitext_root (basename src))
      in if map_of t src = Some (File ''outer'')
         then (t @ [(out, Dir),
                    (out @ [''i.zip''], File ''inner''),
                    (out @ [''n.txt''], File ''text''),
                    (out @ [''__MACOSX''], Dir),
                    (out @ [''__MACOSX'', ''x''], File ''fork'')], None)
         else if map_of t src = Some (File ''inner'')
         then (t @ [(out, Dir), (out @ [''leaf.txt''], File ''leaf'')], None)
         else if map_of t src = Some (File ''pair'')
         then (t @ [(out, Dir),
                    (out @ [''b.zip''], File ''broken''),
                    (out @ [''i.zip''], File ''inner'')], None)
         else if map_of t src = Some (File ''broken'')
         then (t @ [(out, Dir), (out @ [''.DS_Store''], File ''meta'')],
               Some (PatoolError ''unexpected end of data''))
         else (t, Some (PatoolError ''unknown format'')))"

definition demo_is_auto_generated :: "path \<Rightarrow> bool" where
  "demo_is_auto_generated p = (p \<noteq> [] \<and> (last p = ''__MACOSX'' \<or> last p = ''.DS_Store''))"

definition demo_env :: env where
  "demo_env = \<lparr>patool_is_archive = demo_is_archive,
               patool_test_archive = demo_test_archive,
               patool_extract_archive = demo_extract_archive,
               is_auto_generated = demo_is_auto_generated,
               rmtree_reached = (\<lambda>t p. map fst t)\<rparr>"

definition demo_world :: world where
  "demo_world = \<lparr>files = [([''D''], Dir), ([''D'', ''o.zip''], File ''outer'')],
                 undeletable = [],
                 self_src = [''D'', ''o.zip''],
                 self_dst = [''D''],
                 trace = []\<rparr>"

text \<open>A second file system: a corrupt archive, one that fails halfway, one with two
  nested archives, and a \<open>.DS_Store\<close> left in the destination.\<close>

definition demo_world2 :: world where
  "demo_world2 = \<lparr>files = [([''D''], Dir),
                          ([''D'', ''c.zip''], File ''corrupt''),
                          ([''D'', ''b.zip''], File ''broken''),
                          ([''D'', ''p.zip''], File ''pair''),
                          ([''D'', ''.DS_Store''], File ''meta'')],
                  undeletable = [],
                  self_src = [''D'', ''b.zip''],
                  self_dst = [''D''],
                  trace = []\<rparr>"

text \<open>A third one, where the system refuses to delete \<open>D/.DS_Store\<close>.\<close>

definition demo_world3 :: world where
  "demo_world3 = \<lparr>files = [([''D''], Dir),
                          ([''D'', ''.DS_Store''], File ''meta''),
                          ([''D'', ''o.zip''], File ''outer'')],
                  undeletable = [[''D'', ''.DS_Store'']],
                  self_src = [''D'', ''o.zip''],
                  self_dst = [''D''],
                  trace = []\<rparr>"

text \<open>A fourth one, where the archive lies in a \<open>__MACOSX\<close> directory of the
  destination.\<close>

definition demo_world4 :: world where
  "demo_world4 = \<lparr>files = [([''D''], Dir),
                          ([''D'', ''__MACOSX''], Dir),
                          ([''D'', ''__MACOSX'', ''o.zip''], File ''outer'')],
                  undeletable = [],
                  self_src = [''D'', ''__MACOSX'', ''o.zip''],
                  self_dst = [''D''],
                  trace = []\<rparr>"

text \<open>A fifth one, where the system refuses to delete \<open>D/__MACOSX/b\<close>, and lists
  \<open>D/__MACOSX/a\<close> before it.\<close>

definition demo_world5 :: world where
  "demo_world5 = \<lparr>files = [([''D''], Dir),
                          ([''D'', ''__MACOSX''], Dir),
                          ([''D'', ''__MACOSX'', ''a''], File ''fork''),
                          ([''D'', ''__MACOSX'', ''b''], File ''fork''),
                          ([''D'', ''o.zip''], File ''outer'')],
                  undeletable = [[''D'', ''__MACOSX'', ''b'']],
                  self_src = [''D'', ''o.zip''],
                  self_dst = [''D''],
                  trace = []\<rparr>"

section \<open>Backends that fail the documented way\<close>





text \<open>Two states hold the same instance when the fields \<open>src\<close> and \<open>dst\<close> agree.\<close>

definition same_instance :: "world \<Rightarrow> world \<Rightarrow> bool" where
  "same_instance w w' = (self_src w' = self_src w \<and> self_dst w' = self_dst w)"

text \<open>The calls that delete: \<open>shutil.rmtree\<close> and \<open>os.remove\<close>.\<close>

definition is_delete_call :: "event \<Rightarrow> bool" where
  "is_delete_call ev = (case ev of Called (Rmtree p) \<Rightarrow> True | Called (Remove p) \<Rightarrow> True | _ \<Rightarrow> False)"




section \<open>Backends that do not nest for ever\<close>







section \<open>Termination of the walk\<close>

text \<open>
  The walk only deletes, so the number of entries at or below the paths on its stack
  goes down with every directory it scans, and the stack gets shorter when a scan fails.
\<close>

lemma emit_files [simp]: "files (emit e w) = files w"
  by (simp add: emit_def)

lemma os_remove_subseq: "os_remove p w = Inr w' \<Longrightarrow> subseq (files w') (files w)"
  by (auto simp: os_remove_def split: if_splits)

lemma shutil_rmtree_subseq: "shutil_rmtree rs p w = (w', r) \<Longrightarrow> subseq (files w') (files w)"
  by (auto simp: shutil_rmtree_def rmtree_partial_def split: if_splits)

lemma remove_if_auto_generated_subseq:
  "remove_if_auto_generated E isd p w = (w', r) \<Longrightarrow> subseq (files w') (files w)"
  by (auto simp: remove_if_auto_generated_def Let_def
        split: if_splits sum.splits prod.splits option.splits
        dest!: os_remove_subseq shutil_rmtree_subseq)

lemma remove_auto_generated_subseq:
  "remove_auto_generated E isd root ns w = (w', r) \<Longrightarrow> subseq (files w') (files w)"
proof (induction ns arbitrary: w)
  case Nil
  then show ?case by simp
next
  case (Cons n ns)
  obtain w1 r1 where s: "remove_if_auto_generated E isd (join root n) w = (w1, r1)"
    by (cases "remove_if_auto_generated E isd (join root n) w")
  have a: "subseq (files w1) (files w)"
    using s by (rule remove_if_auto_generated_subseq)
  show ?case
  proof (cases r1)
    case None
    with Cons.prems s have "remove_auto_generated E isd root ns w1 = (w', r)" by simp
    then have "subseq (files w') (files w1)" by (rule Cons.IH)
    with a show ?thesis by (rule subseq_order.trans[rotated])
  next
    case (Some e)
    with Cons.prems s a show ?thesis by simp
  qed
qed

lemma walk_body_subseq:
  "walk_body E root dirs nondirs w = (w', r) \<Longrightarrow> subseq (files w') (files w)"
  by (auto simp: walk_body_def split: prod.splits option.splits
      dest!: remove_auto_generated_subseq intro: subseq_order.trans)

lemma cnt_mono:
  assumes "subseq t' t"
  shows "cnt t' p \<le> cnt t p"
proof -
  have "subseq (map fst t') (map fst t)" using assms by (rule subseq_map)
  then have "subseq (filter (prefix p) (map fst t')) (filter (prefix p) (map fst t))"
    by (rule subseq_filter)
  then show ?thesis unfolding cnt_def by (rule list_emb_length)
qed

lemma sum_cnt_mono: "subseq t' t \<Longrightarrow> sum_list (map (cnt t') ps) \<le> sum_list (map (cnt t) ps)"
  by (induction ps) (auto simp: add_mono cnt_mono)

lemma prefix_none_sum:
  "\<forall>q\<in>set cs. \<not> prefix q x \<Longrightarrow> sum_list (map (\<lambda>q. if prefix q x then 1 else 0) cs) = (0::nat)"
  by (induction cs) auto

lemma prefix_same_length:
  assumes "prefix q x" and "prefix q' x" and "length q = length q'"
  shows "q = q'"
proof -
  have "q = take (length q) x" using assms(1) by (auto simp: prefix_def)
  moreover have "q' = take (length q') x" using assms(2) by (auto simp: prefix_def)
  ultimately show ?thesis using assms(3) by simp
qed

lemma child_length: "q \<noteq> [] \<Longrightarrow> butlast q = root \<Longrightarrow> length q = Suc (length root)"
  by (cases q rule: rev_cases) auto

lemma child_strict_prefix: "q \<noteq> [] \<Longrightarrow> butlast q = root \<Longrightarrow> strict_prefix root q"
  by (cases q rule: rev_cases) (auto simp: strict_prefix_def)

lemma prefix_one_sum:
  assumes "distinct cs" and "\<forall>q\<in>set cs. q \<noteq> [] \<and> butlast q = root"
  shows "sum_list (map (\<lambda>q. if prefix q x then 1 else 0) cs)
           \<le> (if strict_prefix root x then 1 else (0::nat))"
  using assms
proof (induction cs)
  case Nil
  then show ?case by simp
next
  case (Cons q cs)
  have q: "q \<noteq> []" "butlast q = root" using Cons.prems(2) by auto
  show ?case
  proof (cases "prefix q x")
    case True
    have "\<forall>q'\<in>set cs. \<not> prefix q' x"
    proof
      fix q' assume q': "q' \<in> set cs"
      then have "q' \<noteq> []" "butlast q' = root" using Cons.prems(2) by auto
      then have l: "length q = length q'" using q by (simp add: child_length)
      show "\<not> prefix q' x"
      proof
        assume "prefix q' x"
        with True have "q = q'" using l by (rule prefix_same_length)
        with q' Cons.prems(1) show False by simp
      qed
    qed
    then have z: "sum_list (map (\<lambda>q. if prefix q x then 1 else 0) cs) = (0::nat)"
      by (rule prefix_none_sum)
    have "strict_prefix root q" using q by (rule child_strict_prefix)
    then have "strict_prefix root x"
      using True by (rule prefix_order.less_le_trans)
    with True z show ?thesis by simp
  next
    case False
    have "sum_list (map (\<lambda>q. if prefix q x then 1 else 0) cs)
           \<le> (if strict_prefix root x then 1 else (0::nat))"
      using Cons.prems by (intro Cons.IH) auto
    with False show ?thesis by simp
  qed
qed

lemma sum_cnt_children:
  assumes "distinct cs" and "\<forall>q\<in>set cs. q \<noteq> [] \<and> butlast q = root"
  shows "sum_list (map (\<lambda>q. length (filter (prefix q) xs)) cs)
           \<le> length (filter (strict_prefix root) xs)"
proof (induction xs)
  case Nil
  then show ?case by simp
next
  case (Cons x xs)
  have "sum_list (map (\<lambda>q. length (filter (prefix q) (x # xs))) cs)
      = sum_list (map (\<lambda>q. (if prefix q x then 1 else 0) + length (filter (prefix q) xs)) cs)"
    by (intro arg_cong[where f=sum_list] map_cong) auto
  also have "\<dots> = sum_list (map (\<lambda>q. if prefix q x then 1 else 0) cs)
               + sum_list (map (\<lambda>q. length (filter (prefix q) xs)) cs)"
    by (simp add: sum_list_addf)
  also have "\<dots> \<le> (if strict_prefix root x then 1 else 0) + length (filter (strict_prefix root) xs)"
    by (intro add_mono prefix_one_sum[OF assms] Cons.IH)
  also have "\<dots> = length (filter (strict_prefix root) (x # xs))" by simp
  finally show ?case .
qed

lemma strict_lt_prefix_count:
  assumes "root \<in> set xs"
  shows "length (filter (strict_prefix root) xs) < length (filter (prefix root) xs)"
proof -
  have "filter (strict_prefix root) xs = filter (strict_prefix root) (filter (prefix root) xs)"
    by (auto simp: strict_prefix_def intro: filter_cong)
  moreover have "root \<in> set (filter (prefix root) xs)" using assms by simp
  then have "length (filter (strict_prefix root) (filter (prefix root) xs))
               < length (filter (prefix root) xs)"
    by (rule length_filter_less) simp
  ultimately show ?thesis by simp
qed

lemma children_props: "q \<in> set (children t d) \<Longrightarrow> q \<noteq> [] \<and> butlast q = d \<and> last q \<noteq> []"
  by (auto simp: children_def)

lemma join_last_child: "q \<in> set (children t d) \<Longrightarrow> join d (last q) = q"
  by (auto simp: children_def join_def)

lemma scandir_dirs:
  assumes "scandir t root = Some (dirs, nondirs)"
  shows "map (join root) dirs = filter (path_isdir t) (children t root)"
proof -
  have "dirs = map last (filter (path_isdir t) (children t root))"
    using assms by (auto simp: scandir_def split: if_splits)
  then have "map (join root) dirs = map (\<lambda>q. join root (last q)) (filter (path_isdir t) (children t root))"
    by (simp add: comp_def)
  also have "\<dots> = map (\<lambda>q. q) (filter (path_isdir t) (children t root))"
    by (intro map_cong) (auto simp: join_last_child)
  finally show ?thesis by simp
qed

lemma scandir_decreases:
  assumes "scandir t root = Some (dirs, nondirs)"
  shows "sum_list (map (cnt t) (map (join root) dirs)) < cnt t root"
proof -
  let ?cs = "filter (path_isdir t) (children t root)"
  have d: "distinct ?cs" by (simp add: children_def)
  have p: "\<forall>q\<in>set ?cs. q \<noteq> [] \<and> butlast q = root" by (auto dest: children_props)
  have "path_isdir t root" using assms by (auto simp: scandir_def split: if_splits)
  then have r: "root \<in> set (map fst t)"
    by (auto simp: path_isdir_def dest!: map_of_SomeD intro: rev_image_eqI)
  have "sum_list (map (cnt t) (map (join root) dirs))
      = sum_list (map (\<lambda>q. length (filter (prefix q) (map fst t))) ?cs)"
    by (simp add: scandir_dirs[OF assms] cnt_def[abs_def])
  also have "\<dots> \<le> length (filter (strict_prefix root) (map fst t))"
    by (rule sum_cnt_children[OF d p])
  also have "\<dots> < cnt t root"
    unfolding cnt_def by (rule strict_lt_prefix_count[OF r])
  finally show ?thesis .
qed

lemma walk_step_decreases:
  assumes sc: "scandir (files w) root = Some (dirs, nondirs)"
    and b: "walk_body E root dirs nondirs w = (w1, o1)"
  shows "sum_list (map (cnt (files w1)) (map (join root) dirs @ stack))
           < sum_list (map (cnt (files w)) (root # stack))"
proof -
  have s: "subseq (files w1) (files w)"
    by (rule walk_body_subseq[OF b])
  have "sum_list (map (cnt (files w1)) (map (join root) dirs @ stack))
     \<le> sum_list (map (cnt (files w)) (map (join root) dirs @ stack))"
    by (rule sum_cnt_mono[OF s])
  also have "\<dots> = sum_list (map (cnt (files w)) (map (join root) dirs))
                + sum_list (map (cnt (files w)) stack)"
    by simp
  also have "\<dots> < cnt (files w) root + sum_list (map (cnt (files w)) stack)"
    using scandir_decreases[OF sc] by (rule add_strict_right_mono)
  finally show ?thesis
    by simp
qed

termination walk_loop
proof (relation "measures [\<lambda>(E, stack, w). sum_list (map (cnt (files w)) stack),
                           \<lambda>(E, stack, w). length stack]", goal_cases)
  case 1
  show ?case by simp
next
  case (2 E root stack w)
  show ?case by (cases "cnt (files w) root") auto
next
  case (3 E root stack w x2 dirs nondirs w1 o1)
  have sc: "scandir (files w) root = Some (dirs, nondirs)"
    using 3(1) 3(2)[symmetric] by simp
  show ?case
    using walk_step_decreases[OF sc 3(3)[symmetric], of stack] by simp
qed

section \<open>Basic facts\<close>

lemma emit_undeletable [simp]: "undeletable (emit e w) = undeletable w"
  by (simp add: emit_def)

lemma emit_self_src [simp]: "self_src (emit e w) = self_src w"
  by (simp add: emit_def)

lemma emit_self_dst [simp]: "self_dst (emit e w) = self_dst w"
  by (simp add: emit_def)

lemma emit_trace [simp]: "trace (emit e w) = trace w @ [e]"
  by (simp add: emit_def)

lemma or_field_Some [simp]: "or_field (Some p) f = p"
  by (simp add: or_field_def)

lemma or_field_None [simp]: "or_field None f = f"
  by (simp add: or_field_def)

section \<open>The walk, case by case\<close>

lemma walk_loop_skip:
  "scandir (files w) root = None \<Longrightarrow> walk_loop E (root # stack) w = walk_loop E stack w"
  by simp

lemma walk_loop_raise:
  "scandir (files w) root = Some (dirs, nondirs) \<Longrightarrow>
   walk_body E root dirs nondirs w = (w1, Some e) \<Longrightarrow>
   walk_loop E (root # stack) w = (w1, Some e)"
  by simp

lemma walk_loop_descend:
  "scandir (files w) root = Some (dirs, nondirs) \<Longrightarrow>
   walk_body E root dirs nondirs w = (w1, None) \<Longrightarrow>
   walk_loop E (root # stack) w = walk_loop E (map (join root) dirs @ stack) w1"
  by simp

lemma walk_loop_induct [case_names Nil Skip Raise Descend]:
  assumes "\<And>E w. P E [] w"
    and "\<And>E root stack w.
           scandir (files w) root = None \<Longrightarrow> P E stack w \<Longrightarrow> P E (root # stack) w"
    and "\<And>E root stack w dirs nondirs w1 e.
           scandir (files w) root = Some (dirs, nondirs) \<Longrightarrow>
           walk_body E root dirs nondirs w = (w1, Some e) \<Longrightarrow> P E (root # stack) w"
    and "\<And>E root stack w dirs nondirs w1.
           scandir (files w) root = Some (dirs, nondirs) \<Longrightarrow>
           walk_body E root dirs nondirs w = (w1, None) \<Longrightarrow>
           P E (map (join root) dirs @ stack) w1 \<Longrightarrow> P E (root # stack) w"
  shows "P E stack w"
proof (induction E stack w rule: walk_loop.induct)
  case (1 E w)
  show ?case by (rule assms(1))
next
  case (2 E root stack w)
  show ?case
  proof (cases "scandir (files w) root")
    case None
    then show ?thesis using 2(1) by (intro assms(2))
  next
    case (Some x2)
    obtain dirs nondirs where x2: "x2 = (dirs, nondirs)" by (cases x2)
    obtain w1 r where b: "walk_body E root dirs nondirs w = (w1, r)"
      by (cases "walk_body E root dirs nondirs w")
    have sc: "scandir (files w) root = Some (dirs, nondirs)" using Some x2 by simp
    show ?thesis
    proof (cases r)
      case None
      have ih: "P E (map (join root) dirs @ stack) w1"
        using 2(2)[OF Some x2[symmetric] b[symmetric] None] .
      have b': "walk_body E root dirs nondirs w = (w1, None)" using b None by simp
      show ?thesis by (rule assms(4)[OF sc b' ih])
    next
      case (Some e)
      then have b': "walk_body E root dirs nondirs w = (w1, Some e)" using b by simp
      show ?thesis by (rule assms(3)[OF sc b'])
    qed
  qed
qed

declare walk_loop.simps(2) [simp del]


section \<open>Only \<open>OSError\<close> leaves the walk\<close>

lemma os_remove_OSError: "os_remove p w = Inl e \<Longrightarrow> e = OSError"
  by (auto simp: os_remove_def split: if_splits)

lemma shutil_rmtree_OSError: "shutil_rmtree rs p w = (w', Some e) \<Longrightarrow> e = OSError"
  by (auto simp: shutil_rmtree_def split: if_splits)

lemma remove_if_auto_generated_OSError:
  "remove_if_auto_generated E isd p w = (w', Some e) \<Longrightarrow> e = OSError"
  by (auto simp: remove_if_auto_generated_def Let_def
      split: if_splits sum.splits prod.splits option.splits
      dest: os_remove_OSError shutil_rmtree_OSError)

lemma remove_auto_generated_OSError:
  "remove_auto_generated E isd root ns w = (w', Some e) \<Longrightarrow> e = OSError"
proof (induction ns arbitrary: w)
  case Nil
  then show ?case by simp
next
  case (Cons n ns)
  then show ?case
    by (auto split: prod.splits option.splits dest: remove_if_auto_generated_OSError)
qed

lemma walk_body_OSError:
  "walk_body E root dirs nondirs w = (w', Some e) \<Longrightarrow> e = OSError"
  by (auto simp: walk_body_def split: prod.splits option.splits
      dest: remove_auto_generated_OSError)

lemma walk_loop_OSError: "walk_loop E stack w = (w', Some e) \<Longrightarrow> e = OSError"
proof (induction E stack w rule: walk_loop_induct)
  case (Nil E w)
  then show ?case by simp
next
  case (Skip E root stack w)
  then show ?case by (simp add: walk_loop_skip)
next
  case (Raise E root stack w dirs nondirs w1 e1)
  then show ?case by (auto simp: walk_loop_raise dest: walk_body_OSError)
next
  case (Descend E root stack w dirs nondirs w1)
  then show ?case by (simp add: walk_loop_descend)
qed

lemma cleanup_and_delete_OSError:
  "cleanup_and_delete E cleanup src dst w = (w', Some e) \<Longrightarrow> e = OSError"
  by (auto simp: cleanup_and_delete_def Let_def
      split: prod.splits option.splits if_splits sum.splits
      dest: walk_loop_OSError os_remove_OSError)

lemma finalizer_returns: "snd (finalizer E cleanup src dst w) = None"
proof -
  obtain w1 r where c: "cleanup_and_delete E cleanup src dst w = (w1, r)"
    by (cases "cleanup_and_delete E cleanup src dst w")
  show ?thesis
  proof (cases r)
    case None
    with c show ?thesis by (simp add: finalizer_def)
  next
    case (Some e)
    with c have "e = OSError" by (auto dest: cleanup_and_delete_OSError)
    with c Some show ?thesis by (simp add: finalizer_def)
  qed
qed

section \<open>What the finalizer keeps\<close>

text \<open>A property of the state that survives a trace record, a successful
  \<open>os.remove\<close> and any \<open>shutil.rmtree\<close> survives the whole finalizer.\<close>

lemma remove_if_auto_generated_keeps:
  assumes e: "\<And>e w. Q w \<Longrightarrow> Q (emit e w)"
    and r: "\<And>p w w'. Q w \<Longrightarrow> os_remove p w = Inr w' \<Longrightarrow> Q w'"
    and t: "\<And>rs p w w' r. Q w \<Longrightarrow> shutil_rmtree rs p w = (w', r) \<Longrightarrow> Q w'"
    and q: "Q w"
  shows "Q (fst (remove_if_auto_generated E isd p w))"
  using q by (auto simp: remove_if_auto_generated_def Let_def
      split: sum.splits prod.splits option.splits intro!: e intro: r t)

lemma remove_auto_generated_keeps_step:
  assumes s: "\<And>isd p w. Q w \<Longrightarrow> Q (fst (remove_if_auto_generated E isd p w))"
    and q: "Q w"
  shows "Q (fst (remove_auto_generated E isd root ns w))"
  using q
proof (induction ns arbitrary: w)
  case Nil
  then show ?case by simp
next
  case (Cons n ns)
  have "Q (fst (remove_if_auto_generated E isd (join root n) w))"
    using Cons.prems by (rule s)
  then show ?case
    using Cons.IH by (auto split: prod.splits option.splits)
qed

lemma walk_body_keeps_step:
  assumes s: "\<And>isd p w. Q w \<Longrightarrow> Q (fst (remove_if_auto_generated E isd p w))"
    and q: "Q w"
  shows "Q (fst (walk_body E root dirs nondirs w))"
proof -
  have a: "Q (fst (remove_auto_generated E True root dirs w))"
    using s q by (rule remove_auto_generated_keeps_step)
  have "Q (fst (remove_auto_generated E False root nondirs
                 (fst (remove_auto_generated E True root dirs w))))"
    using s a by (rule remove_auto_generated_keeps_step)
  with a show ?thesis
    by (auto simp: walk_body_def split: prod.splits option.splits)
qed

lemma walk_loop_keeps_step:
  assumes s: "\<And>isd p w. Q w \<Longrightarrow> Q (fst (remove_if_auto_generated E isd p w))"
  shows "Q w \<Longrightarrow> Q (fst (walk_loop E stack w))"
  using s
proof (induction E stack w rule: walk_loop_induct)
  case (Nil E w)
  then show ?case by simp
next
  case (Skip E root stack w)
  then show ?case by (simp add: walk_loop_skip)
next
  case (Raise E root stack w dirs nondirs w1 e1)
  have "Q (fst (walk_body E root dirs nondirs w))"
    using Raise.prems(2) Raise.prems(1) by (rule walk_body_keeps_step)
  with Raise show ?case by (simp add: walk_loop_raise)
next
  case (Descend E root stack w dirs nondirs w1)
  have "Q (fst (walk_body E root dirs nondirs w))"
    using Descend.prems(2) Descend.prems(1) by (rule walk_body_keeps_step)
  with Descend show ?case by (simp add: walk_loop_descend)
qed

lemma walk_loop_keeps:
  assumes e: "\<And>e w. Q w \<Longrightarrow> Q (emit e w)"
    and r: "\<And>p w w'. Q w \<Longrightarrow> os_remove p w = Inr w' \<Longrightarrow> Q w'"
    and t: "\<And>rs p w w' r. Q w \<Longrightarrow> shutil_rmtree rs p w = (w', r) \<Longrightarrow> Q w'"
    and q: "Q w"
  shows "Q (fst (walk_loop E stack w))"
proof (rule walk_loop_keeps_step[where Q=Q])
  show "Q (fst (remove_if_auto_generated E isd p w))" if "Q w" for isd p w
    using e r t that by (rule remove_if_auto_generated_keeps)
  show "Q w" by (rule q)
qed

lemma cleanup_and_delete_keeps:
  assumes e: "\<And>e w. Q w \<Longrightarrow> Q (emit e w)"
    and r: "\<And>p w w'. Q w \<Longrightarrow> os_remove p w = Inr w' \<Longrightarrow> Q w'"
    and t: "\<And>rs p w w' r. Q w \<Longrightarrow> shutil_rmtree rs p w = (w', r) \<Longrightarrow> Q w'"
    and q: "Q w"
  shows "Q (fst (cleanup_and_delete E cleanup src dst w))"
proof -
  obtain w1 r1 where wl: "walk_loop E [dst] w = (w1, r1)"
    by (cases "walk_loop E [dst] w")
  have "Q (fst (walk_loop E [dst] w))"
    using e r t q by (rule walk_loop_keeps)
  then have q1: "Q w1" using wl by simp
  let ?w2 = "emit (Called (PathExists src)) w1"
  let ?w3 = "emit (Called (Remove src)) ?w2"
  have q2: "Q ?w2" using q1 by (rule e)
  have q3: "Q ?w3" using q2 by (rule e)
  show ?thesis
  proof (cases "os_remove src ?w3")
    case (Inl x)
    with wl q1 q2 q3 show ?thesis
      by (auto simp: cleanup_and_delete_def Let_def split: option.splits)
  next
    case (Inr w4)
    have "Q w4" using q3 Inr by (rule r)
    then have "Q (emit (LogInfo (RemovedCleanup src)) w4)" by (rule e)
    with Inr wl q1 q2 q3 show ?thesis
      by (auto simp: cleanup_and_delete_def Let_def split: option.splits)
  qed
qed

lemma finalizer_keeps:
  assumes e: "\<And>e w. Q w \<Longrightarrow> Q (emit e w)"
    and r: "\<And>p w w'. Q w \<Longrightarrow> os_remove p w = Inr w' \<Longrightarrow> Q w'"
    and t: "\<And>rs p w w' r. Q w \<Longrightarrow> shutil_rmtree rs p w = (w', r) \<Longrightarrow> Q w'"
    and q: "Q w"
  shows "Q (fst (finalizer E cleanup src dst w))"
proof -
  have "Q (fst (cleanup_and_delete E cleanup src dst w))"
    using e r t q by (rule cleanup_and_delete_keeps)
  then show ?thesis
    by (auto simp: finalizer_def split: prod.splits option.splits exn.splits)
qed

section \<open>Validation\<close>

text \<open>
  Claim C5.  \<open>test_archive\<close> returns true exactly when the coarse check
  \<open>patoolib.is_archive\<close> passes and the decode probe \<open>patoolib.test_archive\<close> then
  ends without an exception.  When the coarse check fails it returns false, the file
  system is as before, and the only things that happened are the coarse check and the
  error record: the probe was not called.
\<close>

theorem test_archive_true_iff:
  "(snd (test_archive E src_arg opts w) = Inr True) =
     (patool_is_archive E (files w) (or_field src_arg (self_src w)) \<and>
      patool_test_archive E (files w) (or_field src_arg (self_src w)) opts = None)
   \<and> (\<not> patool_is_archive E (files w) (or_field src_arg (self_src w)) \<longrightarrow>
        snd (test_archive E src_arg opts w) = Inr False \<and>
        files (fst (test_archive E src_arg opts w)) = files w \<and>
        trace (fst (test_archive E src_arg opts w)) =
          trace w @ [Called (IsArchive (or_field src_arg (self_src w))),
                     LogError (NotValidArchive (or_field src_arg (self_src w)))])"
  by (auto simp: test_archive_def Let_def split: option.splits exn.splits)

lemma demo_world_valid:
  "patool_is_archive demo_env (files demo_world) (or_field None (self_src demo_world))"
  "patool_test_archive demo_env (files demo_world) (or_field None (self_src demo_world)) demo_opts = None"
  by code_simp+

theorem test_archive_true_iff_witness:
  "snd (test_archive demo_env None demo_opts demo_world) = Inr True
   \<and> snd (test_archive demo_env (Some [''D'', ''n.txt'']) demo_opts demo_world) = Inr False
   \<and> trace (fst (test_archive demo_env (Some [''D'', ''n.txt'']) demo_opts demo_world)) =
        [Called (IsArchive [''D'', ''n.txt'']), LogError (NotValidArchive [''D'', ''n.txt''])]"
proof -
  have a: "\<not> patool_is_archive demo_env (files demo_world) (or_field (Some [''D'', ''n.txt'']) (self_src demo_world))"
    by code_simp
  have t: "trace demo_world = []" by code_simp
  show ?thesis
    using test_archive_true_iff[of demo_env None demo_opts demo_world]
      test_archive_true_iff[of demo_env "Some [''D'', ''n.txt'']" demo_opts demo_world]
      demo_world_valid a t
    by simp
qed

lemma test_archive_files [simp]: "files (fst (test_archive E src_arg opts w)) = files w"
  by (auto simp: test_archive_def Let_def split: option.splits exn.splits)

lemma test_archive_trace_False:
  assumes "snd (test_archive E src_arg opts w) = Inr False"
  shows "\<exists>m. trace (fst (test_archive E src_arg opts w)) =
               trace w @ [Called (IsArchive (or_field src_arg (self_src w))),
                          LogError (NotValidArchive (or_field src_arg (self_src w)))]
           \<or> trace (fst (test_archive E src_arg opts w)) =
               trace w @ [Called (IsArchive (or_field src_arg (self_src w))),
                          Called (TestArchive (or_field src_arg (self_src w)) opts),
                          LogError (TestFailed (or_field src_arg (self_src w)) m)]"
  using assms
  by (auto simp: test_archive_def Let_def split: option.splits exn.splits if_splits)

section \<open>Single-level extraction\<close>

text \<open>
  Claim C3.  When validation returns false, \<open>extract\<close> returns at once: its result is
  the state validation left, in which the file system is as before and the only things
  that happened are the coarse check, the probe if the coarse check passed, and the error
  record.  So the backend was not asked to unpack, the walk over the destination did
  not run, and the source was not deleted, whatever \<open>cleanup\<close> is.
\<close>

theorem failed_validation_aborts_extract:
  assumes "snd (test_archive E (Some (or_field src_arg (self_src w))) opts w) = Inr False"
  shows "extract_single E src_arg dst_arg opts cleanup w =
           (fst (test_archive E (Some (or_field src_arg (self_src w))) opts w), None)
       \<and> files (fst (extract_single E src_arg dst_arg opts cleanup w)) = files w
       \<and> (\<exists>m. trace (fst (extract_single E src_arg dst_arg opts cleanup w)) =
                 trace w @ [Called (IsArchive (or_field src_arg (self_src w))),
                            LogError (NotValidArchive (or_field src_arg (self_src w)))]
             \<or> trace (fst (extract_single E src_arg dst_arg opts cleanup w)) =
                 trace w @ [Called (IsArchive (or_field src_arg (self_src w))),
                            Called (TestArchive (or_field src_arg (self_src w)) opts),
                            LogError (TestFailed (or_field src_arg (self_src w)) m)])"
proof -
  let ?src = "or_field src_arg (self_src w)"
  obtain w1 where t: "test_archive E (Some ?src) opts w = (w1, Inr False)"
    using assms by (cases "test_archive E (Some ?src) opts w") auto
  then have x: "extract_single E src_arg dst_arg opts cleanup w = (w1, None)"
    by (simp add: extract_single_def)
  have f: "files w1 = files w"
    using test_archive_files[of E "Some ?src" opts w] t by simp
  have "\<exists>m. trace w1 = trace w @ [Called (IsArchive ?src), LogError (NotValidArchive ?src)]
           \<or> trace w1 = trace w @ [Called (IsArchive ?src), Called (TestArchive ?src opts),
                                   LogError (TestFailed ?src m)]"
    using test_archive_trace_False[of E "Some ?src" opts w] t by simp
  with x f t show ?thesis by simp
qed

lemma corrupt_fails_validation:
  "snd (test_archive demo_env (Some (or_field (Some [''D'', ''c.zip'']) (self_src demo_world2)))
         demo_opts demo_world2) = Inr False"
  by code_simp

theorem failed_validation_aborts_extract_witness:
  "files (fst (extract_single demo_env (Some [''D'', ''c.zip'']) None demo_opts True demo_world2))
     = [([''D''], Dir), ([''D'', ''c.zip''], File ''corrupt''),
        ([''D'', ''b.zip''], File ''broken''), ([''D'', ''p.zip''], File ''pair''),
        ([''D'', ''.DS_Store''], File ''meta'')]
   \<and> snd (extract_single demo_env (Some [''D'', ''c.zip'']) None demo_opts True demo_world2) = None"
proof -
  have f: "files demo_world2 = [([''D''], Dir), ([''D'', ''c.zip''], File ''corrupt''),
        ([''D'', ''b.zip''], File ''broken''), ([''D'', ''p.zip''], File ''pair''),
        ([''D'', ''.DS_Store''], File ''meta'')]"
    by (simp add: demo_world2_def)
  show ?thesis
    using failed_validation_aborts_extract[OF corrupt_fails_validation, of None True] f
    by simp
qed


lemma extract_single_after_validation:
  assumes "snd (test_archive E (Some (or_field src_arg (self_src w))) opts w) = Inr True"
  shows "extract_single E src_arg dst_arg opts cleanup w =
           (fst (finalizer E cleanup (or_field src_arg (self_src w)) (or_field dst_arg (self_dst w))
                  (fst (try_extract_archive E (or_field src_arg (self_src w))
                          (or_field dst_arg (self_dst w)) opts
                          (fst (test_archive E (Some (or_field src_arg (self_src w))) opts w))))),
            snd (try_extract_archive E (or_field src_arg (self_src w))
                   (or_field dst_arg (self_dst w)) opts
                   (fst (test_archive E (Some (or_field src_arg (self_src w))) opts w))))"
proof -
  let ?src = "or_field src_arg (self_src w)" and ?dst = "or_field dst_arg (self_dst w)"
  obtain w1 where t: "test_archive E (Some ?src) opts w = (w1, Inr True)"
    using assms by (cases "test_archive E (Some ?src) opts w") auto
  obtain w2 pending where x: "try_extract_archive E ?src ?dst opts w1 = (w2, pending)"
    by (cases "try_extract_archive E ?src ?dst opts w1")
  obtain w3 r where f: "finalizer E cleanup ?src ?dst w2 = (w3, r)"
    by (cases "finalizer E cleanup ?src ?dst w2")
  have "r = None" using finalizer_returns[of E cleanup ?src ?dst w2] f by simp
  with t x f show ?thesis by (simp add: extract_single_def)
qed


text \<open>
  Claim C2.  When validation succeeds, the result of \<open>extract\<close> is the state the
  finalizer leaves when it runs on the state after the backend call, whatever that call
  did: ended normally, raised \<open>PatoolError\<close> (caught and logged), or raised another
  exception (still pending, and raised again after the finalizer).
\<close>

theorem finalizer_always_runs:
  assumes "snd (test_archive E (Some (or_field src_arg (self_src w))) opts w) = Inr True"
  shows "extract_single E src_arg dst_arg opts cleanup w =
           (fst (finalizer E cleanup (or_field src_arg (self_src w)) (or_field dst_arg (self_dst w))
                  (fst (try_extract_archive E (or_field src_arg (self_src w))
                          (or_field dst_arg (self_dst w)) opts
                          (fst (test_archive E (Some (or_field src_arg (self_src w))) opts w))))),
            snd (try_extract_archive E (or_field src_arg (self_src w))
                   (or_field dst_arg (self_dst w)) opts
                   (fst (test_archive E (Some (or_field src_arg (self_src w))) opts w))))"
  using assms by (rule extract_single_after_validation)

lemma broken_passes_validation:
  "snd (test_archive demo_env (Some (or_field None (self_src demo_world2))) demo_opts demo_world2)
     = Inr True"
  by code_simp

theorem finalizer_always_runs_witness:
  "snd (patool_extract_archive demo_env (files demo_world2) [''D'', ''b.zip''] [''D''] demo_opts)
     = Some (PatoolError ''unexpected end of data'')
   \<and> files (fst (extract_single demo_env None None demo_opts True demo_world2))
     = [([''D''], Dir), ([''D'', ''c.zip''], File ''corrupt''),
        ([''D'', ''p.zip''], File ''pair''), ([''D'', ''b''], Dir)]
   \<and> snd (extract_single demo_env None None demo_opts True demo_world2) = None"
  unfolding finalizer_always_runs[OF broken_passes_validation]
  by code_simp




lemma listdir_isdir: "path_isdir t d \<Longrightarrow> listdir t d = Inr (map last (children t d))"
  by (simp add: listdir_def)



section \<open>Failures of the backend\<close>

lemma os_remove_fields:
  "os_remove p w = Inr w' \<Longrightarrow>
     trace w' = trace w \<and> self_src w' = self_src w \<and> self_dst w' = self_dst w \<and>
     undeletable w' = undeletable w"
  by (auto simp: os_remove_def split: if_splits)

lemma shutil_rmtree_fields:
  "shutil_rmtree rs p w = (w', r) \<Longrightarrow>
     trace w' = trace w \<and> self_src w' = self_src w \<and> self_dst w' = self_dst w \<and>
     undeletable w' = undeletable w"
  by (auto simp: shutil_rmtree_def rmtree_partial_def split: if_splits)













section \<open>The instance fields\<close>

lemma finalizer_instance: "same_instance w (fst (finalizer E cleanup src dst w))"
  by (rule finalizer_keeps[where Q="same_instance w"])
    (auto simp: same_instance_def dest: os_remove_fields shutil_rmtree_fields)

lemma test_archive_instance: "same_instance w (fst (test_archive E src_arg opts w))"
  by (auto simp: same_instance_def test_archive_def Let_def split: option.splits exn.splits)

lemma try_extract_archive_instance: "same_instance w (fst (try_extract_archive E src dst opts w))"
  by (auto simp: same_instance_def try_extract_archive_def Let_def
      split: prod.splits option.splits exn.splits)

lemma same_instance_trans: "same_instance a b \<Longrightarrow> same_instance b c \<Longrightarrow> same_instance a c"
  by (simp add: same_instance_def)

lemma extract_single_instance:
  "same_instance w (fst (extract_single E src_arg dst_arg opts cleanup w))"
proof -
  let ?src = "or_field src_arg (self_src w)" and ?dst = "or_field dst_arg (self_dst w)"
  obtain w1 b where t: "test_archive E (Some ?src) opts w = (w1, b)"
    by (cases "test_archive E (Some ?src) opts w")
  have i1: "same_instance w w1"
    using test_archive_instance[of w E "Some ?src" opts] t by simp
  obtain w2 pending where x: "try_extract_archive E ?src ?dst opts w1 = (w2, pending)"
    by (cases "try_extract_archive E ?src ?dst opts w1")
  have i2: "same_instance w1 w2"
    using try_extract_archive_instance[of w1 E ?src ?dst opts] x by simp
  obtain w3 r where f: "finalizer E cleanup ?src ?dst w2 = (w3, r)"
    by (cases "finalizer E cleanup ?src ?dst w2")
  have i3: "same_instance w2 w3"
    using finalizer_instance[of w2 E cleanup ?src ?dst] f by simp
  have i: "same_instance w w3" using i1 i2 i3 by (blast intro: same_instance_trans)
  show ?thesis using t x f i1 i
    by (auto simp: extract_single_def Let_def split: sum.splits bool.splits option.splits)
qed

lemma emit_instance: "same_instance w (emit e w)"
  by (simp add: same_instance_def)

lemma extract_nested_instance:
  assumes ih: "\<And>sa da w r. extractall n E sa da opts cleanup w = Some r \<Longrightarrow> same_instance w (fst r)"
  shows "extract_nested n E extract_dir names opts cleanup w = Some r \<Longrightarrow> same_instance w (fst r)"
proof (induction names arbitrary: w)
  case Nil
  then show ?case by (auto simp: same_instance_def)
next
  case (Cons name rest)
  let ?sub = "join extract_dir name"
  let ?w1 = "emit (Called (IsArchive ?sub)) w"
  have e: "same_instance w ?w1" by (rule emit_instance)
  show ?case
  proof (cases "patool_is_archive E (files ?w1) ?sub")
    case False
    with Cons.prems have "extract_nested n E extract_dir rest opts cleanup ?w1 = Some r"
      by (simp add: Let_def)
    then have "same_instance ?w1 (fst r)" by (rule Cons.IH)
    with e show ?thesis by (rule same_instance_trans)
  next
    case True
    show ?thesis
    proof (cases "extractall n E (Some ?sub) (Some extract_dir) opts cleanup ?w1")
      case None
      with True Cons.prems show ?thesis by (simp add: Let_def)
    next
      case (Some r1)
      then have s1: "same_instance ?w1 (fst r1)" by (rule ih)
      obtain w2 x where r1: "r1 = (w2, x)" by (cases r1)
      have s2: "same_instance w w2" using e s1 r1 by (auto intro: same_instance_trans)
      show ?thesis
      proof (cases x)
        case None
        with True Some r1 Cons.prems
        have "extract_nested n E extract_dir rest opts cleanup w2 = Some r"
          by (simp add: Let_def)
        then have "same_instance w2 (fst r)" by (rule Cons.IH)
        with s2 show ?thesis by (rule same_instance_trans)
      next
        case (Some e1)
        with True \<open>extractall n E (Some ?sub) (Some extract_dir) opts cleanup ?w1 = Some r1\<close>
          r1 Cons.prems s2
        show ?thesis by (auto simp: Let_def)
      qed
    qed
  qed
qed

lemma extractall_instance:
  "extractall n E src_arg dst_arg opts cleanup w = Some r \<Longrightarrow> same_instance w (fst r)"
proof (induction n arbitrary: src_arg dst_arg w r)
  case 0
  then show ?case by simp
next
  case (Suc n)
  let ?src = "or_field src_arg (self_src w)" and ?dst = "or_field dst_arg (self_dst w)"
  let ?ed = "join ?dst (splitext_root (basename ?src))"
  obtain w1 x where x: "extract_single E (Some ?src) (Some ?dst) opts cleanup w = (w1, x)"
    by (cases "extract_single E (Some ?src) (Some ?dst) opts cleanup w")
  have s1: "same_instance w w1"
    using extract_single_instance[of w E "Some ?src" "Some ?dst" opts cleanup] x by simp
  let ?w2 = "emit (Called (PathExists ?ed)) w1"
  have s2: "same_instance w ?w2"
    using s1 emit_instance by (rule same_instance_trans)
  show ?case
  proof (cases x)
    case (Some e)
    with Suc.prems x s1 show ?thesis by (auto simp: Let_def)
  next
    case None
    show ?thesis
    proof (cases "path_exists (files ?w2) ?ed \<and> path_isdir (files ?w2) ?ed")
      case False
      with Suc.prems x None s2 show ?thesis by (auto simp: Let_def)
    next
      case True
      then have l: "listdir (files ?w2) ?ed = Inr (map last (children (files ?w2) ?ed))"
        by (simp add: listdir_isdir)
      from Suc.prems x None True l
      have "extract_nested n E ?ed (map last (children (files ?w2) ?ed)) opts cleanup ?w2 = Some r"
        by (simp add: Let_def)
      then have "same_instance ?w2 (fst r)"
        using Suc.IH by (rule extract_nested_instance[rotated])
      with s2 show ?thesis by (rule same_instance_trans)
    qed
  qed
qed

text \<open>
  Claim C10.  No operation assigns to the instance fields: after \<open>test_archive\<close>, after
  \<open>extract\<close> and after a whole recursive run of \<open>extractall\<close>, \<open>self.src\<close> and
  \<open>self.dst\<close> are what they were before the call.
\<close>

theorem instance_fields_never_change:
  "self_src (fst (test_archive E src_arg opts w)) = self_src w
   \<and> self_dst (fst (test_archive E src_arg opts w)) = self_dst w
   \<and> self_src (fst (extract_single E src_arg dst_arg opts cleanup w)) = self_src w
   \<and> self_dst (fst (extract_single E src_arg dst_arg opts cleanup w)) = self_dst w
   \<and> (\<forall>r. extractall n E src_arg dst_arg opts cleanup w = Some r \<longrightarrow>
          self_src (fst r) = self_src w \<and> self_dst (fst r) = self_dst w)"
  using test_archive_instance[of w E src_arg opts]
    extract_single_instance[of w E src_arg dst_arg opts cleanup]
    extractall_instance[of n E src_arg dst_arg opts cleanup w]
  by (simp add: same_instance_def)

lemma demo_full_run:
  "extractall 2 demo_env None None demo_opts True demo_world \<noteq> None"
  "files (fst (the (extractall 2 demo_env None None demo_opts True demo_world))) =
     [([''D''], Dir), ([''D'', ''o''], Dir), ([''D'', ''o'', ''n.txt''], File ''text''),
      ([''D'', ''o'', ''i''], Dir), ([''D'', ''o'', ''i'', ''leaf.txt''], File ''leaf'')]"
  by code_simp+

theorem instance_fields_never_change_witness:
  "extractall 2 demo_env None None demo_opts True demo_world \<noteq> None
   \<and> self_src (fst (the (extractall 2 demo_env None None demo_opts True demo_world)))
       = [''D'', ''o.zip'']
   \<and> self_dst (fst (the (extractall 2 demo_env None None demo_opts True demo_world))) = [''D'']"
proof -
  have s: "self_src demo_world = [''D'', ''o.zip'']" "self_dst demo_world = [''D'']"
    by (simp_all add: demo_world_def)
  show ?thesis
    using instance_fields_never_change[of demo_env None demo_opts demo_world None True 2]
      demo_full_run(1) s
    by auto
qed

section \<open>A deletion that fails\<close>

text \<open>A \<open>shutil.rmtree\<close> that fails halfway: \<open>D/__MACOSX/a\<close> is gone, the protected
  \<open>D/__MACOSX/b\<close> and the directory are still there, and the walk ends with the
  \<open>OSError\<close>.\<close>

lemma demo_rmtree_halfway:
  "snd (walk_loop demo_env [[''D'']] demo_world5) = Some OSError
   \<and> \<not> path_exists (files (fst (walk_loop demo_env [[''D'']] demo_world5))) [''D'', ''__MACOSX'', ''a'']
   \<and> path_exists (files (fst (walk_loop demo_env [[''D'']] demo_world5))) [''D'', ''__MACOSX'', ''b'']
   \<and> path_isdir (files (fst (walk_loop demo_env [[''D'']] demo_world5))) [''D'', ''__MACOSX'']
   \<and> path_exists (files (fst (walk_loop demo_env [[''D'']] demo_world5))) [''D'', ''o.zip'']"
  by code_simp

lemma remove_if_auto_generated_raise_last:
  "remove_if_auto_generated E isd p w = (w', Some e) \<Longrightarrow>
     trace w' \<noteq> [] \<and> is_delete_call (last (trace w'))"
  by (auto simp: remove_if_auto_generated_def Let_def is_delete_call_def
      split: if_splits sum.splits prod.splits option.splits dest!: shutil_rmtree_fields)

lemma remove_auto_generated_raise_last:
  "remove_auto_generated E isd root ns w = (w', Some e) \<Longrightarrow>
     trace w' \<noteq> [] \<and> is_delete_call (last (trace w'))"
proof (induction ns arbitrary: w)
  case Nil
  then show ?case by simp
next
  case (Cons n ns)
  obtain w1 r1 where s: "remove_if_auto_generated E isd (join root n) w = (w1, r1)"
    by (cases "remove_if_auto_generated E isd (join root n) w")
  show ?case
  proof (cases r1)
    case None
    with Cons.prems s have "remove_auto_generated E isd root ns w1 = (w', Some e)" by simp
    then show ?thesis by (rule Cons.IH)
  next
    case (Some e1)
    with Cons.prems s have "remove_if_auto_generated E isd (join root n) w = (w', Some e1)"
      by simp
    then show ?thesis by (rule remove_if_auto_generated_raise_last)
  qed
qed

lemma walk_body_raise_last:
  "walk_body E root dirs nondirs w = (w', Some e) \<Longrightarrow>
     trace w' \<noteq> [] \<and> is_delete_call (last (trace w'))"
proof -
  assume a: "walk_body E root dirs nondirs w = (w', Some e)"
  obtain w1 r1 where d: "remove_auto_generated E True root dirs w = (w1, r1)"
    by (cases "remove_auto_generated E True root dirs w")
  show ?thesis
  proof (cases r1)
    case None
    with a d have "remove_auto_generated E False root nondirs w1 = (w', Some e)"
      by (simp add: walk_body_def)
    then show ?thesis by (rule remove_auto_generated_raise_last)
  next
    case (Some e1)
    with a d have "remove_auto_generated E True root dirs w = (w', Some e1)"
      by (simp add: walk_body_def)
    then show ?thesis by (rule remove_auto_generated_raise_last)
  qed
qed

lemma walk_loop_raise_last:
  "walk_loop E stack w = (w', Some e) \<Longrightarrow> trace w' \<noteq> [] \<and> is_delete_call (last (trace w'))"
proof (induction E stack w rule: walk_loop_induct)
  case (Nil E w)
  then show ?case by simp
next
  case (Skip E root stack w)
  then show ?case by (simp add: walk_loop_skip)
next
  case (Raise E root stack w dirs nondirs w1 e1)
  then have "walk_body E root dirs nondirs w = (w', Some e1)"
    by (simp add: walk_loop_raise)
  then show ?case by (rule walk_body_raise_last)
next
  case (Descend E root stack w dirs nondirs w1)
  then show ?case by (simp add: walk_loop_descend)
qed

text \<open>
  Claim C9.  When the walk of the finalizer ends with an exception, the exception is
  \<open>OSError\<close> and the finalizer ends in the very state the walk was in when the
  deletion failed: the last thing on record is the refused deletion call, so nothing was
  visited, deleted or logged after it, the source was not deleted whatever \<open>cleanup\<close>
  is, and no exception leaves the finalizer or, through it, \<open>extract\<close>.
\<close>

theorem oserror_in_walk_skips_the_rest:
  assumes "snd (walk_loop E [dst] w) = Some e"
  shows "e = OSError
       \<and> finalizer E cleanup src dst w = (fst (walk_loop E [dst] w), None)
       \<and> trace (fst (finalizer E cleanup src dst w)) \<noteq> []
       \<and> is_delete_call (last (trace (fst (finalizer E cleanup src dst w))))
       \<and> (snd (test_archive E (Some src) opts w0) = Inr True \<and>
            try_extract_archive E src dst opts (fst (test_archive E (Some src) opts w0)) = (w, pending)
          \<longrightarrow> extract_single E (Some src) (Some dst) opts cleanup w0
                = (fst (walk_loop E [dst] w), pending))"
proof -
  obtain w1 where wl: "walk_loop E [dst] w = (w1, Some e)"
    using assms by (cases "walk_loop E [dst] w") auto
  have e: "e = OSError" using wl by (rule walk_loop_OSError)
  have f: "finalizer E cleanup src dst w = (w1, None)"
    using wl e by (simp add: finalizer_def cleanup_and_delete_def)
  have l: "trace w1 \<noteq> [] \<and> is_delete_call (last (trace w1))"
    using wl by (rule walk_loop_raise_last)
  have x: "extract_single E (Some src) (Some dst) opts cleanup w0 = (w1, pending)"
    if "snd (test_archive E (Some src) opts w0) = Inr True"
      and "try_extract_archive E src dst opts (fst (test_archive E (Some src) opts w0)) = (w, pending)"
    using that f
    by (cases "test_archive E (Some src) opts w0") (simp add: extract_single_def)
  show ?thesis using e f l x wl by simp
qed


theorem oserror_in_walk_skips_the_rest_witness:
  "snd (extract_single demo_env (Some [''D'', ''o.zip'']) (Some [''D'']) demo_opts True demo_world3)
     = None
   \<and> path_exists
        (files (fst (extract_single demo_env (Some [''D'', ''o.zip'']) (Some [''D'']) demo_opts
                       True demo_world3)))
        [''D'', ''o.zip'']
   \<and> last (trace (fst (extract_single demo_env (Some [''D'', ''o.zip'']) (Some [''D''])
                          demo_opts True demo_world3)))
       = Called (Remove [''D'', ''.DS_Store''])"
proof -
  let ?w = "fst (try_extract_archive demo_env [''D'', ''o.zip''] [''D''] demo_opts
                  (fst (test_archive demo_env (Some [''D'', ''o.zip'']) demo_opts demo_world3)))"
  have a: "snd (walk_loop demo_env [[''D'']] ?w) = Some OSError"
    by code_simp
  have v: "snd (test_archive demo_env (Some [''D'', ''o.zip'']) demo_opts demo_world3) = Inr True"
    by code_simp
  have t: "try_extract_archive demo_env [''D'', ''o.zip''] [''D''] demo_opts
             (fst (test_archive demo_env (Some [''D'', ''o.zip'']) demo_opts demo_world3))
           = (?w, None)"
    by code_simp
  have p: "path_exists (files (fst (walk_loop demo_env [[''D'']] ?w))) [''D'', ''o.zip'']"
    by code_simp
  have l: "last (trace (fst (walk_loop demo_env [[''D'']] ?w))) = Called (Remove [''D'', ''.DS_Store''])"
    by code_simp
  have "extract_single demo_env (Some [''D'', ''o.zip'']) (Some [''D'']) demo_opts True demo_world3
          = (fst (walk_loop demo_env [[''D'']] ?w), None)"
    using oserror_in_walk_skips_the_rest[OF a, of True "[''D'', ''o.zip'']" demo_opts demo_world3 None]
      v t by blast
  with p l show ?thesis by simp
qed

section \<open>What the walk leaves alone\<close>

lemma map_of_filter_key:
  "map_of (filter (\<lambda>(k, v). P k) t) q = (if P q then map_of t q else None)"
  by (induction t) auto

lemma rmtree_partial_map_of:
  "map_of (files (rmtree_partial rs p w)) q =
     (if list_ex (\<lambda>c. strict_prefix p c \<and> prefix c q \<and> \<not> list_ex (prefix c) (undeletable w)) rs
      then None else map_of (files w) q)"
  by (simp add: rmtree_partial_def map_of_filter_key)


lemma shutil_rmtree_frame:
  assumes "shutil_rmtree rs p w = (w', r)" and "\<not> prefix p q"
  shows "map_of (files w') q = map_of (files w) q"
proof -
  have "\<not> (strict_prefix p c \<and> prefix c q)" for c
    using assms(2) by (auto simp: strict_prefix_def dest: prefix_order.trans)
  then show ?thesis
    using assms
    by (auto simp: shutil_rmtree_def rmtree_partial_map_of map_of_filter_key list_ex_iff
        split: if_splits)
qed

lemma shutil_rmtree_gone: "shutil_rmtree rs p w = (w', None) \<Longrightarrow> map_of (files w') p = None"
  by (auto simp: shutil_rmtree_def map_of_filter_key split: if_splits)

lemma shutil_rmtree_ok:
  "undeletable w = [] \<Longrightarrow> path_isdir (files w) p \<Longrightarrow> snd (shutil_rmtree rs p w) = None"
  by (simp add: shutil_rmtree_def)

lemma scandir_names:
  assumes "scandir t root = Some (dirs, nondirs)"
  shows "\<forall>n\<in>set dirs \<union> set nondirs. n \<noteq> []"
proof -
  have "\<forall>q\<in>set (children t root). last q \<noteq> []"
    by (auto dest: children_props)
  moreover have "set dirs \<union> set nondirs \<subseteq> last ` set (children t root)"
    using assms by (auto simp: scandir_def split: if_splits)
  ultimately show ?thesis by fastforce
qed

lemma join_nonempty: "n \<noteq> [] \<Longrightarrow> join root n = root @ [n]"
  by (simp add: join_def)

lemma remove_if_auto_generated_frame:
  assumes "remove_if_auto_generated E isd p w = (w', r)"
    and "is_auto_generated E p \<longrightarrow> \<not> prefix p q"
  shows "map_of (files w') q = map_of (files w) q"
proof (cases "is_auto_generated E p")
  case False
  with assms(1) show ?thesis by (auto simp: remove_if_auto_generated_def Let_def)
next
  case True
  with assms(2) have n: "\<not> prefix p q" by simp
  then have "q \<noteq> p" by auto
  with assms(1) n show ?thesis
    by (auto simp: remove_if_auto_generated_def Let_def os_remove_def map_of_filter_key
        split: if_splits prod.splits option.splits dest: shutil_rmtree_frame)
qed

lemma remove_auto_generated_frame:
  assumes "remove_auto_generated E isd root ns w = (w', r)"
    and "\<forall>n\<in>set ns. is_auto_generated E (join root n) \<longrightarrow> \<not> prefix (join root n) q"
  shows "map_of (files w') q = map_of (files w) q"
  using assms
proof (induction ns arbitrary: w)
  case Nil
  then show ?case by simp
next
  case (Cons n ns)
  obtain w1 r1 where s: "remove_if_auto_generated E isd (join root n) w = (w1, r1)"
    by (cases "remove_if_auto_generated E isd (join root n) w")
  have a: "map_of (files w1) q = map_of (files w) q"
    using s Cons.prems(2) by (intro remove_if_auto_generated_frame[OF s]) simp
  show ?case
  proof (cases r1)
    case None
    with Cons.prems s have "remove_auto_generated E isd root ns w1 = (w', r)" by simp
    then have "map_of (files w') q = map_of (files w1) q"
      using Cons.prems(2) by (intro Cons.IH) auto
    with a show ?thesis by simp
  next
    case (Some e)
    with Cons.prems s a show ?thesis by simp
  qed
qed

lemma walk_body_frame:
  assumes "walk_body E root dirs nondirs w = (w', r)"
    and "\<forall>n\<in>set dirs \<union> set nondirs.
           is_auto_generated E (join root n) \<longrightarrow> \<not> prefix (join root n) q"
  shows "map_of (files w') q = map_of (files w) q"
proof -
  obtain w1 r1 where d: "remove_auto_generated E True root dirs w = (w1, r1)"
    by (cases "remove_auto_generated E True root dirs w")
  have a: "map_of (files w1) q = map_of (files w) q"
    using d assms(2) by (intro remove_auto_generated_frame[OF d]) auto
  show ?thesis
  proof (cases r1)
    case None
    with assms(1) d have f: "remove_auto_generated E False root nondirs w1 = (w', r)"
      by (simp add: walk_body_def)
    have "map_of (files w') q = map_of (files w1) q"
      using assms(2) by (intro remove_auto_generated_frame[OF f]) auto
    with a show ?thesis by simp
  next
    case (Some e)
    with assms(1) d a show ?thesis by (simp add: walk_body_def)
  qed
qed

text \<open>The walk changes nothing at a path that is neither at nor below an auto-generated
  path inside the directory it walks.\<close>

lemma walk_loop_frame:
  assumes "\<forall>p. strict_prefix dst p \<and> prefix p q \<longrightarrow> \<not> is_auto_generated E p"
  shows "\<forall>s\<in>set stack. prefix dst s \<Longrightarrow>
         map_of (files (fst (walk_loop E stack w))) q = map_of (files w) q"
  using assms
proof (induction E stack w rule: walk_loop_induct)
  case (Nil E w)
  then show ?case by simp
next
  case (Skip E root stack w)
  then show ?case by (simp add: walk_loop_skip)
next
  case (Raise E root stack w dirs nondirs w1 e1)
  have "\<forall>n\<in>set dirs \<union> set nondirs.
           is_auto_generated E (join root n) \<longrightarrow> \<not> prefix (join root n) q"
  proof (intro ballI impI)
    fix n assume n: "n \<in> set dirs \<union> set nondirs" and a: "is_auto_generated E (join root n)"
    have "n \<noteq> []" using scandir_names[OF Raise.hyps(1)] n by blast
    then have j: "join root n = root @ [n]" by (rule join_nonempty)
    have "prefix dst root" using Raise.prems(1) by simp
    then have "strict_prefix dst (join root n)"
      unfolding j by (auto simp: strict_prefix_def prefix_def)
    with a Raise.prems(2) show "\<not> prefix (join root n) q" by blast
  qed
  then have "map_of (files w1) q = map_of (files w) q"
    by (rule walk_body_frame[OF Raise.hyps(2)])
  then show ?case using Raise.hyps by (simp add: walk_loop_raise)
next
  case (Descend E root stack w dirs nondirs w1)
  have ne: "\<forall>n\<in>set dirs \<union> set nondirs. n \<noteq> []"
    by (rule scandir_names[OF Descend.hyps(1)])
  have pr: "prefix dst root" using Descend.prems(1) by simp
  have "\<forall>n\<in>set dirs \<union> set nondirs.
           is_auto_generated E (join root n) \<longrightarrow> \<not> prefix (join root n) q"
  proof (intro ballI impI)
    fix n assume n: "n \<in> set dirs \<union> set nondirs" and a: "is_auto_generated E (join root n)"
    have "n \<noteq> []" using ne n by blast
    then have j: "join root n = root @ [n]" by (rule join_nonempty)
    have "strict_prefix dst (join root n)"
      using pr unfolding j by (auto simp: strict_prefix_def prefix_def)
    with a Descend.prems(2) show "\<not> prefix (join root n) q" by blast
  qed
  then have b: "map_of (files w1) q = map_of (files w) q"
    by (rule walk_body_frame[OF Descend.hyps(2)])
  have "\<forall>s\<in>set (map (join root) dirs @ stack). prefix dst s"
  proof
    fix s assume "s \<in> set (map (join root) dirs @ stack)"
    then consider n where "n \<in> set dirs" "s = join root n" | "s \<in> set stack" by auto
    then show "prefix dst s"
    proof cases
      case 1
      then have "n \<noteq> []" using ne by blast
      then have "s = root @ [n]" using 1 by (simp add: join_nonempty)
      with pr show ?thesis by (auto simp: prefix_def)
    next
      case 2
      with Descend.prems(1) show ?thesis by simp
    qed
  qed
  then have "map_of (files (fst (walk_loop E (map (join root) dirs @ stack) w1))) q
               = map_of (files w1) q"
    using Descend.prems(2) by (rule Descend.IH)
  with b show ?case using Descend.hyps by (simp add: walk_loop_descend)
qed


lemma finalizer_files:
  "files (fst (finalizer E cleanup src dst w)) =
     (if cleanup \<and> snd (walk_loop E [dst] w) = None
          \<and> path_exists (files (fst (walk_loop E [dst] w))) src
          \<and> \<not> path_isdir (files (fst (walk_loop E [dst] w))) src
          \<and> src \<notin> set (undeletable (fst (walk_loop E [dst] w)))
      then filter (\<lambda>(q, k). q \<noteq> src) (files (fst (walk_loop E [dst] w)))
      else files (fst (walk_loop E [dst] w)))"
proof -
  obtain w1 r where wl: "walk_loop E [dst] w = (w1, r)" by (cases "walk_loop E [dst] w")
  show ?thesis
  proof (cases r)
    case (Some e)
    with wl have "e = OSError" by (auto dest: walk_loop_OSError)
    with wl Some show ?thesis by (simp add: finalizer_def cleanup_and_delete_def)
  next
    case None
    with wl show ?thesis
      by (auto simp: finalizer_def cleanup_and_delete_def Let_def os_remove_def
          split: exn.splits)
  qed
qed

section \<open>Deleting the source\<close>

text \<open>
  Claim C6, as amended.  When validation does not return true, \<open>extract\<close> leaves the
  file system as it is.  When it does, the file system after \<open>extract\<close> is the one the
  walk of the finalizer leaves (\<open>w3\<close>), with the source taken out when \<open>cleanup\<close> is
  true, the walk ended without an error and the source is then still there as a file
  the system lets go; in every other case, and always when \<open>cleanup\<close> is false, it is
  exactly the file system the walk leaves.  The walk, for its part, leaves the source as
  the backend call left it unless the source lies below the destination and it, or a
  directory between the destination and it, is classified as auto-generated.
\<close>

theorem source_deletion_guarded:
  "(let src = or_field src_arg (self_src w);
        dst = or_field dst_arg (self_dst w);
        w2 = fst (try_extract_archive E src dst opts (fst (test_archive E (Some src) opts w)));
        w3 = fst (walk_loop E [dst] w2)
    in (snd (test_archive E (Some src) opts w) \<noteq> Inr True \<longrightarrow>
          files (fst (extract_single E src_arg dst_arg opts cleanup w)) = files w)
     \<and> (snd (test_archive E (Some src) opts w) = Inr True \<longrightarrow>
          files (fst (extract_single E src_arg dst_arg opts cleanup w)) =
            (if cleanup \<and> snd (walk_loop E [dst] w2) = None \<and> path_exists (files w3) src
                 \<and> \<not> path_isdir (files w3) src \<and> src \<notin> set (undeletable w3)
             then filter (\<lambda>(q, k). q \<noteq> src) (files w3)
             else files w3))
     \<and> ((\<forall>p. strict_prefix dst p \<and> prefix p src \<longrightarrow> \<not> is_auto_generated E p) \<longrightarrow>
          map_of (files w3) src = map_of (files w2) src))"
proof -
  let ?src = "or_field src_arg (self_src w)" and ?dst = "or_field dst_arg (self_dst w)"
  let ?w1 = "fst (test_archive E (Some ?src) opts w)"
  let ?w2 = "fst (try_extract_archive E ?src ?dst opts ?w1)"
  let ?w3 = "fst (walk_loop E [?dst] ?w2)"
  have a: "files (fst (extract_single E src_arg dst_arg opts cleanup w)) = files w"
    if "snd (test_archive E (Some ?src) opts w) \<noteq> Inr True"
  proof -
    obtain w1 b where t: "test_archive E (Some ?src) opts w = (w1, b)"
      by (cases "test_archive E (Some ?src) opts w")
    have "files w1 = files w" using test_archive_files[of E "Some ?src" opts w] t by simp
    with t that show ?thesis
      by (auto simp: extract_single_def Let_def split: sum.splits bool.splits)
  qed
  have b: "files (fst (extract_single E src_arg dst_arg opts cleanup w)) =
            (if cleanup \<and> snd (walk_loop E [?dst] ?w2) = None \<and> path_exists (files ?w3) ?src
                 \<and> \<not> path_isdir (files ?w3) ?src \<and> ?src \<notin> set (undeletable ?w3)
             then filter (\<lambda>(q, k). q \<noteq> ?src) (files ?w3)
             else files ?w3)"
    if v: "snd (test_archive E (Some ?src) opts w) = Inr True"
  proof -
    have "files (fst (extract_single E src_arg dst_arg opts cleanup w))
            = files (fst (finalizer E cleanup ?src ?dst ?w2))"
      using extract_single_after_validation[OF v, of dst_arg cleanup] by simp
    then show ?thesis by (simp only: finalizer_files)
  qed
  have c: "map_of (files ?w3) ?src = map_of (files ?w2) ?src"
    if "\<forall>p. strict_prefix ?dst p \<and> prefix p ?src \<longrightarrow> \<not> is_auto_generated E p"
    using that by (intro walk_loop_frame) auto
  show ?thesis using a b c by (simp only: Let_def) blast
qed

text \<open>
  Claim C6 as stated fails: with \<open>cleanup\<close> false, a valid source archive that lies in
  an auto-generated directory of the destination is gone after \<open>extract\<close>, removed by
  the walk.
\<close>

theorem source_deletion_guarded_counterexample:
  "snd (test_archive demo_env (Some [''D'', ''__MACOSX'', ''o.zip'']) demo_opts demo_world4) = Inr True
   \<and> path_exists (files demo_world4) [''D'', ''__MACOSX'', ''o.zip'']
   \<and> \<not> path_exists
          (files (fst (extract_single demo_env (Some [''D'', ''__MACOSX'', ''o.zip''])
                         (Some [''D'']) demo_opts False demo_world4)))
          [''D'', ''__MACOSX'', ''o.zip'']"
  by code_simp


lemma demo_source_not_auto_generated:
  "\<forall>p. strict_prefix [''D''] p \<and> prefix p [''D'', ''o.zip''] \<longrightarrow> \<not> is_auto_generated demo_env p"
  by (auto simp: prefix_Cons strict_prefix_def demo_env_def demo_is_auto_generated_def)

theorem source_deletion_guarded_witness:
  "map_of (files (fst (extract_single demo_env None None demo_opts False demo_world)))
      [''D'', ''o.zip''] = Some (File ''outer'')
   \<and> \<not> path_exists (files (fst (extract_single demo_env None None demo_opts True demo_world)))
         [''D'', ''o.zip'']"
proof -
  let ?src = "[''D'', ''o.zip'']" and ?dst = "[''D'']"
  let ?w2 = "fst (try_extract_archive demo_env ?src ?dst demo_opts
                   (fst (test_archive demo_env (Some ?src) demo_opts demo_world)))"
  let ?w3 = "fst (walk_loop demo_env [?dst] ?w2)"
  have o: "self_src demo_world = ?src" "self_dst demo_world = ?dst"
    by (simp_all add: demo_world_def)
  have v: "snd (test_archive demo_env (Some ?src) demo_opts demo_world) = Inr True"
    by code_simp
  have m: "map_of (files ?w2) ?src = Some (File ''outer'')"
    by code_simp
  have c: "snd (walk_loop demo_env [?dst] ?w2) = None" "path_exists (files ?w3) ?src"
    "\<not> path_isdir (files ?w3) ?src" "?src \<notin> set (undeletable ?w3)"
    by code_simp+
  have f: "files (fst (extract_single demo_env None None demo_opts False demo_world)) = files ?w3"
    using source_deletion_guarded[where src_arg=None and dst_arg=None and w=demo_world
        and E=demo_env and opts=demo_opts and cleanup=False] v
    by (simp add: Let_def o)
  have k: "map_of (files ?w3) ?src = map_of (files ?w2) ?src"
    using source_deletion_guarded[where src_arg=None and dst_arg=None and w=demo_world
        and E=demo_env and opts=demo_opts and cleanup=False] demo_source_not_auto_generated
    by (simp add: Let_def o)
  have t: "files (fst (extract_single demo_env None None demo_opts True demo_world))
             = filter (\<lambda>(q, k). q \<noteq> ?src) (files ?w3)"
    using source_deletion_guarded[where src_arg=None and dst_arg=None and w=demo_world
        and E=demo_env and opts=demo_opts and cleanup=True] v c
    by (simp add: Let_def o)
  show ?thesis
    unfolding f t using k m by (simp add: path_exists_def map_of_filter_key)
qed

section \<open>What the walk visits\<close>























section \<open>A walk that no deletion stops\<close>







section \<open>Existence is checked again before each deletion\<close>






section \<open>The walk of the finalizer\<close>






section \<open>Recursive descent\<close>




section \<open>Termination of the recursion\<close>


















section \<open>A recursion that does not end\<close>










end
